theory Spec2Isabelle
  imports Main "HOL-Library.Word" "HOL-Library.Multiset"
begin

section \<open>Data model of the cache table\<close>

text \<open>
  A shallow embedding of \<^verbatim>\<open>src/index.ts\<close> (the class \<^verbatim>\<open>SqliteCache\<close> and the
  prepared statements of \<^verbatim>\<open>initSqliteCache\<close>).

  Epoch milliseconds, TTL durations and \<^verbatim>\<open>maxItems\<close> are JavaScript numbers in the
  source; they are taken here as integers (\<open>int\<close>, and \<open>nat\<close> for the positive
  \<^verbatim>\<open>maxItems\<close>), with the range of \<^verbatim>\<open>Date\<close> written out where the source builds
  one. A \<^verbatim>\<open>Buffer\<close> is a list of bytes.
\<close>

type_synonym buffer = "8 word list"

text \<open>
  One row of the table created by \<^verbatim>\<open>CREATE TABLE ... (key TEXT PRIMARY KEY, value BLOB,
  expires INT, lastAccess INT, compressed BOOLEAN)\<close>. The column \<^verbatim>\<open>expires\<close> is
  nullable (\<open>None\<close> is SQL NULL); \<^verbatim>\<open>compressed\<close> is written as 1 or 0 and read by
  truthiness, so it is a \<open>bool\<close>.
\<close>

record row =
  key :: string
  valueBlob :: buffer
  expires :: "int option"
  lastAccess :: int
  compressed :: bool

type_synonym table = "row list"

subsection \<open>SQL comparisons with NULL\<close>

text \<open>
  A comparison with NULL is NULL (\<open>None\<close>), and a \<^verbatim>\<open>WHERE\<close> clause selects a row
  only when its condition is true.
\<close>

definition sql_lt :: "int option \<Rightarrow> int \<Rightarrow> bool option" where
  "sql_lt a b = (case a of None \<Rightarrow> None | Some x \<Rightarrow> Some (x < b))"

definition sql_gt :: "int option \<Rightarrow> int \<Rightarrow> bool option" where
  "sql_gt a b = (case a of None \<Rightarrow> None | Some x \<Rightarrow> Some (x > b))"

definition sql_is_null :: "int option \<Rightarrow> bool option" where
  "sql_is_null a = Some (a = None)"

fun sql_or :: "bool option \<Rightarrow> bool option \<Rightarrow> bool option" where
  "sql_or (Some True) _ = Some True"
| "sql_or _ (Some True) = Some True"
| "sql_or (Some False) (Some False) = Some False"
| "sql_or _ _ = None"

fun sql_and :: "bool option \<Rightarrow> bool option \<Rightarrow> bool option" where
  "sql_and (Some False) _ = Some False"
| "sql_and _ (Some False) = Some False"
| "sql_and (Some True) (Some True) = Some True"
| "sql_and _ _ = None"

definition sql_where :: "bool option \<Rightarrow> bool" where
  "sql_where c = (c = Some True)"

subsection \<open>The prepared statements\<close>

text \<open>
  \<^verbatim>\<open>UPDATE OR IGNORE t SET lastAccess = @now
  WHERE key = @key AND (expires > @now OR expires IS NULL) RETURNING value, compressed\<close>,
  run with \<^verbatim>\<open>.get\<close>: the first returned row, or nothing.
\<close>

definition getStatement_where :: "string \<Rightarrow> int \<Rightarrow> row \<Rightarrow> bool" where
  "getStatement_where k now r =
     sql_where (sql_and (Some (key r = k))
                        (sql_or (sql_gt (expires r) now) (sql_is_null (expires r))))"

definition getStatement :: "string \<Rightarrow> int \<Rightarrow> table \<Rightarrow> (buffer \<times> bool) option \<times> table" where
  "getStatement k now t =
     (case filter (getStatement_where k now) t of
        [] \<Rightarrow> None
      | r # _ \<Rightarrow> Some (valueBlob r, compressed r),
      map (\<lambda>r. if getStatement_where k now r then r\<lparr>lastAccess := now\<rparr> else r) t)"

text \<open>
  \<^verbatim>\<open>INSERT OR REPLACE INTO t (key, value, expires, lastAccess, compressed) VALUES (...)\<close>:
  a row with the same primary key is removed and the new row is inserted.
\<close>

definition setStatement :: "row \<Rightarrow> table \<Rightarrow> unit \<times> table" where
  "setStatement new t = ((), filter (\<lambda>r. key r \<noteq> key new) t @ [new])"

text \<open>\<^verbatim>\<open>DELETE FROM t WHERE key = @key\<close> and \<^verbatim>\<open>DELETE FROM t\<close>.\<close>

definition deleteStatement :: "string \<Rightarrow> table \<Rightarrow> unit \<times> table" where
  "deleteStatement k t = ((), filter (\<lambda>r. \<not> sql_where (Some (key r = k))) t)"

definition clearStatement :: "table \<Rightarrow> unit \<times> table" where
  "clearStatement t = ((), [])"

text \<open>\<^verbatim>\<open>DELETE FROM t WHERE expires < @now\<close>.\<close>

definition cleanupExpiredStatement :: "int \<Rightarrow> table \<Rightarrow> unit \<times> table" where
  "cleanupExpiredStatement now t =
     ((), filter (\<lambda>r. \<not> sql_where (sql_lt (expires r) now)) t)"

text \<open>
  \<^verbatim>\<open>WITH lru AS (SELECT key FROM t ORDER BY lastAccess DESC LIMIT -1 OFFSET @maxItems)
  DELETE FROM t WHERE key IN lru\<close>.
  SQL leaves the order of rows with equal \<^verbatim>\<open>lastAccess\<close> to the engine, so the
  engine's \<^verbatim>\<open>ORDER BY lastAccess DESC\<close> is the parameter \<open>orderBy\<close>;
  \<open>orderByLastAccessDesc\<close> is one such engine (a stable sort, read backwards).
\<close>

definition lru :: "(table \<Rightarrow> table) \<Rightarrow> nat \<Rightarrow> table \<Rightarrow> string list" where
  "lru orderBy maxItems t = map key (drop maxItems (orderBy t))"

definition cleanupLruStatement :: "(table \<Rightarrow> table) \<Rightarrow> nat \<Rightarrow> table \<Rightarrow> unit \<times> table" where
  "cleanupLruStatement orderBy maxItems t =
     ((), filter (\<lambda>r. key r \<notin> set (lru orderBy maxItems t)) t)"

definition orderByLastAccessDesc :: "table \<Rightarrow> table" where
  "orderByLastAccessDesc t = rev (sort_key lastAccess t)"

text \<open>What \<^verbatim>\<open>ORDER BY lastAccess DESC\<close> guarantees of its result on the table \<open>t\<close>.\<close>

definition ordersByLastAccessDesc :: "(table \<Rightarrow> table) \<Rightarrow> table \<Rightarrow> bool" where
  "ordersByLastAccessDesc orderBy t \<longleftrightarrow>
     mset (orderBy t) = mset t \<and>
     sorted_wrt (\<lambda>a b. lastAccess a \<ge> lastAccess b) (orderBy t)"

section \<open>The cache object\<close>

text \<open>
  The connection returned by \<^verbatim>\<open>new Database(...)\<close>: the rows of the cache table,
  whether the connection is open (\<^verbatim>\<open>db.close()\<close> clears it), and the number of
  statements run on it so far. The counter is not in the source; it makes "no storage
  access" a property of the state.
\<close>

record connection =
  rows :: table
  connected :: bool
  statementsRun :: nat

datatype error = CacheClosed | InitFailed | StorageFailed | DecodeFailed

text \<open>
  Running a prepared statement. The engine raises when the connection is closed, and may
  raise for reasons outside the program (I/O error, full disk): \<open>fails\<close> says whether
  it does at this run. A statement that raises changes no row.
\<close>

definition run :: "bool \<Rightarrow> (table \<Rightarrow> 'a \<times> table) \<Rightarrow> connection \<Rightarrow> (error + 'a) \<times> connection" where
  "run fails stmt d =
     (let d1 = d\<lparr>statementsRun := Suc (statementsRun d)\<rparr>
      in if fails \<or> \<not> connected d then (Inl StorageFailed, d1)
         else (case stmt (rows d) of (a, t) \<Rightarrow> (Inr a, d1\<lparr>rows := t\<rparr>)))"

text \<open>\<^verbatim>\<open>SqliteCacheConfiguration\<close>, as the caller passed it (\<^verbatim>\<open>this.configuration\<close>).\<close>

record SqliteCacheConfiguration =
  database :: string
  defaultTtlMs :: "int option"
  maxItems :: "nat option"
  compress :: "bool option"
  cacheTableName :: "string option"

text \<open>The third argument of \<^verbatim>\<open>set\<close>: \<^verbatim>\<open>{ ttlMs?: number; compress?: boolean }\<close>.\<close>

record set_opts =
  ttlMs :: "int option"
  compressOpt :: "bool option"

text \<open>
  The fields of \<^verbatim>\<open>SqliteCache\<close>. \<open>db\<close> is the outcome of the promise
  \<^verbatim>\<open>this.db\<close> (\<open>Inl\<close> when \<^verbatim>\<open>initSqliteCache\<close> rejected); \<open>checkInterval\<close> says
  whether the \<^verbatim>\<open>setInterval\<close> timer is still armed. The rest is the part of the event
  loop the class uses: the number of queued \<^verbatim>\<open>setImmediate\<close> callbacks, the state of
  the debounced function, and what \<^verbatim>\<open>console.error\<close> has printed.
\<close>

record SqliteCache =
  configuration :: SqliteCacheConfiguration
  db :: "error + connection"
  isClosed :: bool
  checkInterval :: bool
  immediates :: nat
  debounceTimestamp :: "int option"
  logged :: "error list"

text \<open>
  The libraries \<^verbatim>\<open>cbor\<close> and \<^verbatim>\<open>zlib\<close> are parameters: \<^verbatim>\<open>cbor.encode\<close>,
  \<^verbatim>\<open>cbor.decode\<close>, \<^verbatim>\<open>compress\<close> (gzip) and \<^verbatim>\<open>decompress\<close> (gunzip). Decoding
  and decompressing raise on malformed bytes.
\<close>

record 'v codec =
  cborEncode :: "'v \<Rightarrow> buffer"
  cborDecode :: "buffer \<Rightarrow> error + 'v"
  gzip :: "buffer \<Rightarrow> buffer"
  gunzip :: "buffer \<Rightarrow> error + buffer"

definition COMPRESSION_MIN_LENGTH :: nat where
  "COMPRESSION_MIN_LENGTH = 1024"

subsection \<open>get\<close>

text \<open>
  Every operation returns its outcome (\<open>Inl\<close> for a raised error) and the state it
  leaves. \<open>now\<close> is the value of the call to \<^verbatim>\<open>now()\<close>. The result \<open>None\<close> is the
  \<^verbatim>\<open>return undefined\<close> of a missing row.
\<close>

definition get :: "'v codec \<Rightarrow> bool \<Rightarrow> int \<Rightarrow> SqliteCache \<Rightarrow> string \<Rightarrow> (error + 'v option) \<times> SqliteCache" where
  "get cd fails now c k =
     (if isClosed c then (Inl CacheClosed, c)
      else case db c of
        Inl e \<Rightarrow> (Inl e, c)
      | Inr d \<Rightarrow>
          (case run fails (getStatement k now) d of
             (Inl e, d') \<Rightarrow> (Inl e, c\<lparr>db := Inr d'\<rparr>)
           | (Inr None, d') \<Rightarrow> (Inr None, c\<lparr>db := Inr d'\<rparr>)
           | (Inr (Some (v, z)), d') \<Rightarrow>
               (case (if z then gunzip cd v else Inr v) of
                  Inl e \<Rightarrow> (Inl e, c\<lparr>db := Inr d'\<rparr>)
                | Inr b \<Rightarrow>
                    (case cborDecode cd b of
                       Inl e \<Rightarrow> (Inl e, c\<lparr>db := Inr d'\<rparr>)
                     | Inr x \<Rightarrow> (Inr (Some x), c\<lparr>db := Inr d'\<rparr>)))))"

subsection \<open>set\<close>

text \<open>
  \<^verbatim>\<open>new Date(tv).getTime()\<close>: a \<^verbatim>\<open>Date\<close> holds a time value of at most 8.64e15
  milliseconds either side of the epoch; beyond that the date is invalid and
  \<^verbatim>\<open>getTime()\<close> is NaN (\<open>None\<close>).
\<close>

definition TimeClip :: "int \<Rightarrow> int option" where
  "TimeClip tv = (if \<bar>tv\<bar> > 8640000000000000 then None else Some tv)"

text \<open>
  The row that \<^verbatim>\<open>set\<close> binds to the statement. \<open>dateNow\<close> is the \<^verbatim>\<open>Date.now()\<close> of
  the expiry computation and \<open>now\<close> the later \<^verbatim>\<open>now()\<close> of the statement's
  parameters. The source reads \<^verbatim>\<open>opts.ttlMs ?? opts.ttlMs\<close>. \<open>expiresDate\<close> is the
  \<^verbatim>\<open>Date\<close> object, or \<open>None\<close> for \<^verbatim>\<open>undefined\<close>; the bound parameter is
  \<^verbatim>\<open>expires?.getTime() ?? null\<close>, and a NaN bound to the statement is stored as NULL.
\<close>

definition set_row :: "'v codec \<Rightarrow> int \<Rightarrow> int \<Rightarrow> SqliteCacheConfiguration \<Rightarrow> string \<Rightarrow> 'v \<Rightarrow> set_opts \<Rightarrow> row" where
  "set_row cd dateNow now cfg k v opts =
     (let ttl = (case ttlMs opts of Some t \<Rightarrow> Some t | None \<Rightarrow> ttlMs opts);
          expiresDate = (case ttl of Some t \<Rightarrow> Some (TimeClip (dateNow + t)) | None \<Rightarrow> None);
          expiresBound = (case expiresDate of Some tv \<Rightarrow> tv | None \<Rightarrow> None);
          compression = (case compressOpt opts of Some b \<Rightarrow> b
                         | None \<Rightarrow> (case compress cfg of Some b \<Rightarrow> b | None \<Rightarrow> False));
          valueBuffer = cborEncode cd v;
          (compression, valueBuffer) =
             (if compression \<and> length valueBuffer \<ge> COMPRESSION_MIN_LENGTH then
                (let compressed = gzip cd valueBuffer
                 in if length compressed \<ge> length valueBuffer then (False, valueBuffer)
                    else (compression, compressed))
              else (False, valueBuffer))
      in \<lparr>key = k, valueBlob = valueBuffer, expires = expiresBound,
          lastAccess = now, compressed = compression\<rparr>)"

definition set' :: "'v codec \<Rightarrow> bool \<Rightarrow> int \<Rightarrow> int \<Rightarrow> SqliteCache \<Rightarrow> string \<Rightarrow> 'v \<Rightarrow> set_opts \<Rightarrow> (error + unit) \<times> SqliteCache" where
  "set' cd fails dateNow now c k v opts =
     (if isClosed c then (Inl CacheClosed, c)
      else case db c of
        Inl e \<Rightarrow> (Inl e, c)
      | Inr d \<Rightarrow>
          (case run fails (setStatement (set_row cd dateNow now (configuration c) k v opts)) d of
             (Inl e, d') \<Rightarrow> (Inl e, c\<lparr>db := Inr d'\<rparr>)
           | (Inr u, d') \<Rightarrow> (Inr (), c\<lparr>db := Inr d', immediates := Suc (immediates c)\<rparr>)))"

subsection \<open>delete, clear, close\<close>

definition delete :: "bool \<Rightarrow> SqliteCache \<Rightarrow> string \<Rightarrow> (error + unit) \<times> SqliteCache" where
  "delete fails c k =
     (if isClosed c then (Inl CacheClosed, c)
      else case db c of
        Inl e \<Rightarrow> (Inl e, c)
      | Inr d \<Rightarrow>
          (case run fails (deleteStatement k) d of
             (Inl e, d') \<Rightarrow> (Inl e, c\<lparr>db := Inr d'\<rparr>)
           | (Inr u, d') \<Rightarrow> (Inr (), c\<lparr>db := Inr d'\<rparr>)))"

definition clear :: "bool \<Rightarrow> SqliteCache \<Rightarrow> (error + unit) \<times> SqliteCache" where
  "clear fails c =
     (if isClosed c then (Inl CacheClosed, c)
      else case db c of
        Inl e \<Rightarrow> (Inl e, c)
      | Inr d \<Rightarrow>
          (case run fails clearStatement d of
             (Inl e, d') \<Rightarrow> (Inl e, c\<lparr>db := Inr d'\<rparr>)
           | (Inr u, d') \<Rightarrow> (Inr (), c\<lparr>db := Inr d'\<rparr>)))"

text \<open>
  \<^verbatim>\<open>clearInterval(this.checkInterval); (await this.db).db.close(); this.isClosed = true\<close>.
  When the initialisation failed, the \<^verbatim>\<open>await\<close> raises and the flag stays unset.
\<close>

definition close :: "SqliteCache \<Rightarrow> (error + unit) \<times> SqliteCache" where
  "close c =
     (let c1 = c\<lparr>checkInterval := False\<rparr>
      in case db c1 of
        Inl e \<Rightarrow> (Inl e, c1)
      | Inr d \<Rightarrow> (Inr (), c1\<lparr>db := Inr (d\<lparr>connected := False\<rparr>), isClosed := True\<rparr>))"

subsection \<open>The sweep\<close>

text \<open>
  The body of the \<^verbatim>\<open>try\<close> block of \<^verbatim>\<open>checkForExpiredItems\<close>: the TTL statement, then
  the LRU statement when \<^verbatim>\<open>this.configuration.maxItems\<close> is truthy. \<open>failsTtl\<close> and
  \<open>failsLru\<close> say whether the engine raises at each statement.
\<close>

definition sweep_try :: "(table \<Rightarrow> table) \<Rightarrow> bool \<Rightarrow> bool \<Rightarrow> int \<Rightarrow> SqliteCache \<Rightarrow> (error + unit) \<times> SqliteCache" where
  "sweep_try orderBy failsTtl failsLru now c =
     (case db c of
        Inl e \<Rightarrow> (Inl e, c)
      | Inr d \<Rightarrow>
          (case run failsTtl (cleanupExpiredStatement now) d of
             (Inl e, d') \<Rightarrow> (Inl e, c\<lparr>db := Inr d'\<rparr>)
           | (Inr u, d') \<Rightarrow>
               (case maxItems (configuration c) of
                  None \<Rightarrow> (Inr (), c\<lparr>db := Inr d'\<rparr>)
                | Some m \<Rightarrow>
                    if m = 0 then (Inr (), c\<lparr>db := Inr d'\<rparr>)
                    else (case run failsLru (cleanupLruStatement orderBy m) d' of
                            (Inl e, d'') \<Rightarrow> (Inl e, c\<lparr>db := Inr d''\<rparr>)
                          | (Inr u, d'') \<Rightarrow> (Inr (), c\<lparr>db := Inr d''\<rparr>)))))"

text \<open>
  The function wrapped by \<^verbatim>\<open>debounce\<close>: nothing when the cache is closed; otherwise the
  \<^verbatim>\<open>try\<close> block, whose error the \<^verbatim>\<open>catch\<close> hands to \<^verbatim>\<open>console.error\<close>.
\<close>

definition checkForExpiredItems_body :: "(table \<Rightarrow> table) \<Rightarrow> bool \<Rightarrow> bool \<Rightarrow> int \<Rightarrow> SqliteCache \<Rightarrow> (error + unit) \<times> SqliteCache" where
  "checkForExpiredItems_body orderBy failsTtl failsLru now c =
     (if isClosed c then (Inr (), c)
      else case sweep_try orderBy failsTtl failsLru now c of
        (Inl e, c') \<Rightarrow> (Inr (), c'\<lparr>logged := logged c' @ [e]\<rparr>)
      | (Inr u, c') \<Rightarrow> (Inr (), c'))"

text \<open>
  Modelled from the spec: the third-party \<^verbatim>\<open>debounce(f, 100, { immediate: true })\<close>, which is
  not part of the repository. Section 4.4: requests are coalesced with a 100 ms window
  and leading-edge semantics; the first request in a quiet period executes promptly,
  and further requests within the window do not queue additional executions.
\<close>

definition checkForExpiredItems :: "(table \<Rightarrow> table) \<Rightarrow> bool \<Rightarrow> bool \<Rightarrow> int \<Rightarrow> SqliteCache \<Rightarrow> SqliteCache" where
  "checkForExpiredItems orderBy failsTtl failsLru now c =
     (let callNow = (case debounceTimestamp c of None \<Rightarrow> True | Some ts \<Rightarrow> ts + 100 \<le> now);
          c1 = c\<lparr>debounceTimestamp := Some now\<rparr>
      in if callNow then snd (checkForExpiredItems_body orderBy failsTtl failsLru now c1) else c1)"

text \<open>
  The two triggers: a callback queued by \<^verbatim>\<open>setImmediate\<close> in \<^verbatim>\<open>set\<close>, and a tick of
  the \<^verbatim>\<open>setInterval\<close> timer of the constructor.
\<close>

datatype trigger = Immediate | IntervalTick

definition fire :: "(table \<Rightarrow> table) \<Rightarrow> bool \<Rightarrow> bool \<Rightarrow> int \<Rightarrow> trigger \<Rightarrow> SqliteCache \<Rightarrow> SqliteCache" where
  "fire orderBy failsTtl failsLru now tr c =
     (case tr of
        Immediate \<Rightarrow>
          if immediates c = 0 then c
          else checkForExpiredItems orderBy failsTtl failsLru now (c\<lparr>immediates := immediates c - 1\<rparr>)
      | IntervalTick \<Rightarrow>
          if checkInterval c then checkForExpiredItems orderBy failsTtl failsLru now c else c)"

section \<open>Notions used by the properties\<close>

text \<open>The table of a cache, and the row it holds for a key.\<close>

definition cache_table :: "SqliteCache \<Rightarrow> table" where
  "cache_table c = (case db c of Inl e \<Rightarrow> [] | Inr d \<Rightarrow> rows d)"

definition stored :: "SqliteCache \<Rightarrow> string \<Rightarrow> row option" where
  "stored c k = find (\<lambda>r. key r = k) (cache_table c)"

text \<open>An open cache on an open connection.\<close>

definition ready :: "SqliteCache \<Rightarrow> bool" where
  "ready c = (\<not> isClosed c \<and> (case db c of Inl e \<Rightarrow> False | Inr d \<Rightarrow> connected d))"

text \<open>The number of statements run so far on the connection of a cache.\<close>

definition storage_accesses :: "SqliteCache \<Rightarrow> nat" where
  "storage_accesses c = (case db c of Inl e \<Rightarrow> 0 | Inr d \<Rightarrow> statementsRun d)"

text \<open>A row is live at \<open>now\<close> when it never expires or expires later than \<open>now\<close>.\<close>

definition live :: "int \<Rightarrow> row \<Rightarrow> bool" where
  "live now r = (case expires r of None \<Rightarrow> True | Some e \<Rightarrow> now < e)"

text \<open>What the read path makes of the bytes of a row: gunzip when flagged, then decode.\<close>

definition decoded :: "'v codec \<Rightarrow> row \<Rightarrow> error + 'v" where
  "decoded cd r =
     (case (if compressed r then gunzip cd (valueBlob r) else Inr (valueBlob r)) of
        Inl e \<Rightarrow> Inl e
      | Inr b \<Rightarrow> cborDecode cd b)"

text \<open>A sequence of calls of the public operations, each with its environment.\<close>

datatype 'v call = Get string | Set string 'v set_opts | Delete string | Clear

record call_env =
  storageFails :: bool
  dateNowValue :: int
  nowValue :: int

definition exec :: "'v codec \<Rightarrow> call_env \<Rightarrow> 'v call \<Rightarrow> SqliteCache \<Rightarrow> (error + 'v option) \<times> SqliteCache" where
  "exec cd env cl c =
     (case cl of
        Get k \<Rightarrow> get cd (storageFails env) (nowValue env) c k
      | Set k v opts \<Rightarrow>
          (case set' cd (storageFails env) (dateNowValue env) (nowValue env) c k v opts of
             (r, c') \<Rightarrow> (map_sum id (\<lambda>u. None) r, c'))
      | Delete k \<Rightarrow>
          (case delete (storageFails env) c k of (r, c') \<Rightarrow> (map_sum id (\<lambda>u. None) r, c'))
      | Clear \<Rightarrow>
          (case clear (storageFails env) c of (r, c') \<Rightarrow> (map_sum id (\<lambda>u. None) r, c')))"

fun exec_all :: "'v codec \<Rightarrow> (call_env \<times> 'v call) list \<Rightarrow> SqliteCache \<Rightarrow> (error + 'v option) list \<times> SqliteCache" where
  "exec_all cd [] c = ([], c)"
| "exec_all cd ((env, cl) # cs) c =
     (case exec cd env cl c of
        (r, c') \<Rightarrow> (case exec_all cd cs c' of (rs, c'') \<Rightarrow> (r # rs, c'')))"

text \<open>A sequence of sweep triggers, each with the engine's behaviour and the time.\<close>

record sweep_env =
  ttlFails :: bool
  lruFails :: bool
  sweepNow :: int

fun fire_all :: "(table \<Rightarrow> table) \<Rightarrow> (sweep_env \<times> trigger) list \<Rightarrow> SqliteCache \<Rightarrow> SqliteCache" where
  "fire_all orderBy [] c = c"
| "fire_all orderBy ((env, tr) # ts) c =
     fire_all orderBy ts (fire orderBy (ttlFails env) (lruFails env) (sweepNow env) tr c)"

subsection \<open>Example states\<close>

definition row_a :: row where
  "row_a = \<lparr>key = ''a'', valueBlob = [64, 1, 2], expires = None, lastAccess = 10, compressed = False\<rparr>"

definition row_b :: row where
  "row_b = \<lparr>key = ''b'', valueBlob = [64, 3], expires = Some 100, lastAccess = 30, compressed = False\<rparr>"

definition row_c :: row where
  "row_c = \<lparr>key = ''c'', valueBlob = [64, 4], expires = Some 50, lastAccess = 20, compressed = False\<rparr>"

definition example_connection :: connection where
  "example_connection = \<lparr>rows = [row_a, row_b, row_c], connected = True, statementsRun = 0\<rparr>"

definition example_configuration :: SqliteCacheConfiguration where
  "example_configuration =
     \<lparr>database = '':memory:'', defaultTtlMs = Some 3600000, maxItems = Some 2,
      compress = Some True, cacheTableName = None\<rparr>"

definition example_cache :: SqliteCache where
  "example_cache =
     \<lparr>configuration = example_configuration, db = Inr example_connection, isClosed = False,
      checkInterval = True, immediates = 0, debounceTimestamp = None, logged = []\<rparr>"

definition example_cache_unbounded :: SqliteCache where
  "example_cache_unbounded =
     example_cache\<lparr>configuration := example_configuration\<lparr>maxItems := None\<rparr>\<rparr>"

text \<open>
  A codec for the examples: values are buffers, encoded behind a tag byte; the
  compressor shortens a buffer of equal bytes to a header, its length and the byte.
\<close>

definition example_gzip :: "buffer \<Rightarrow> buffer" where
  "example_gzip b =
     (if set b = {hd b} \<and> length b < 65536
      then [31, 139, of_nat (length b div 256), of_nat (length b mod 256), hd b]
      else 0 # b)"

definition example_gunzip :: "buffer \<Rightarrow> error + buffer" where
  "example_gunzip z =
     (case z of
        [h1, h2, hi, lo, x] \<Rightarrow>
          if h1 = 31 \<and> h2 = 139 then Inr (replicate (unat hi * 256 + unat lo) x)
          else if h1 = 0 then Inr [h2, hi, lo, x] else Inl DecodeFailed
      | h # b \<Rightarrow> if h = 0 then Inr b else Inl DecodeFailed
      | [] \<Rightarrow> Inl DecodeFailed)"

definition example_codec :: "buffer codec" where
  "example_codec =
     \<lparr>cborEncode = (\<lambda>v. 64 # v),
      cborDecode = (\<lambda>b. case b of [] \<Rightarrow> Inl DecodeFailed
                               | h # v \<Rightarrow> if h = 64 then Inr v else Inl DecodeFailed),
      gzip = example_gzip, gunzip = example_gunzip\<rparr>"

section \<open>Basic facts about the model\<close>

lemma not_sql_where_lt:
  "\<not> sql_where (sql_lt a b) \<longleftrightarrow> a = None \<or> (\<exists>e. a = Some e \<and> b \<le> e)"
  by (cases a) (auto simp add: sql_where_def sql_lt_def)

lemma getStatement_where_iff:
  "getStatement_where k now r \<longleftrightarrow> key r = k \<and> live now r"
proof (cases "expires r")
  case None
  then show ?thesis
    by (cases "key r = k")
      (simp_all add: getStatement_where_def sql_where_def sql_gt_def sql_is_null_def live_def)
next
  case (Some e)
  then show ?thesis
    by (cases "key r = k"; cases "now < e")
      (simp_all add: getStatement_where_def sql_where_def sql_gt_def sql_is_null_def live_def)
qed

lemma run_ok:
  "connected d \<Longrightarrow>
   run False stmt d =
     (Inr (fst (stmt (rows d))),
      d\<lparr>statementsRun := Suc (statementsRun d), rows := snd (stmt (rows d))\<rparr>)"
  by (simp add: run_def Let_def split: prod.splits)

lemma ready_db: "ready c \<Longrightarrow> \<exists>d. db c = Inr d \<and> connected d \<and> \<not> isClosed c"
  by (auto simp: ready_def split: sum.splits)

lemma ready_example_cache: "ready example_cache"
  by (simp add: ready_def example_cache_def example_connection_def)

lemma find_replaced:
  "key new = k \<Longrightarrow> find (\<lambda>r. key r = k) (filter (\<lambda>r. key r \<noteq> k) t @ [new]) = Some new"
  by (induction t) simp_all

lemma key_set_row: "key (set_row cd dateNow now cfg k v opts) = k"
  by (simp add: set_row_def Let_def split: prod.splits)

lemma set_ready:
  assumes "ready c"
  shows "set' cd False dateNow now c k v opts =
    (Inr (),
     c\<lparr>db := Inr ((projr (db c))
               \<lparr>statementsRun := Suc (statementsRun (projr (db c))),
                rows := filter (\<lambda>r. key r \<noteq> k) (rows (projr (db c)))
                        @ [set_row cd dateNow now (configuration c) k v opts]\<rparr>),
       immediates := Suc (immediates c)\<rparr>)"
proof -
  from ready_db[OF assms] obtain d where d: "db c = Inr d" "connected d" "\<not> isClosed c"
    by blast
  show ?thesis using d
    by (simp add: set'_def run_ok setStatement_def key_set_row)
qed

lemma stored_after_set:
  assumes "ready c"
  shows "stored (snd (set' cd False dateNow now c k v opts)) k =
           Some (set_row cd dateNow now (configuration c) k v opts)"
  by (simp add: set_ready[OF assms] stored_def cache_table_def find_replaced key_set_row)

lemma expires_set_row:
  "expires (set_row cd dateNow now cfg k v opts) =
     (case ttlMs opts of None \<Rightarrow> None | Some t \<Rightarrow> TimeClip (dateNow + t))"
  by (simp add: set_row_def Let_def split: prod.splits option.splits)

lemma effective_set_row:
  "valueBlob (set_row cd dateNow now cfg k v opts) =
     (let e = cborEncode cd v;
          flag = (case compressOpt opts of Some b \<Rightarrow> b
                  | None \<Rightarrow> (case compress cfg of Some b \<Rightarrow> b | None \<Rightarrow> False))
      in if flag \<and> 1024 \<le> length e \<and> length (gzip cd e) < length e then gzip cd e else e)"
  "compressed (set_row cd dateNow now cfg k v opts) =
     (let e = cborEncode cd v;
          flag = (case compressOpt opts of Some b \<Rightarrow> b
                  | None \<Rightarrow> (case compress cfg of Some b \<Rightarrow> b | None \<Rightarrow> False))
      in flag \<and> 1024 \<le> length e \<and> length (gzip cd e) < length e)"
  by (auto simp add: set_row_def Let_def COMPRESSION_MIN_LENGTH_def split: prod.splits option.splits)

lemma example_encode: "cborEncode example_codec v = 64 # v"
  by (simp add: example_codec_def)

lemma example_gzip_run: "gzip example_codec (64 # replicate 2000 64) = [31, 139, 7, 209, 64]"
  by (simp add: example_codec_def example_gzip_def)

lemma cache_table_db [simp]: "cache_table (c\<lparr>db := Inr d\<rparr>) = rows d"
  by (simp add: cache_table_def)

lemma get_ready:
  assumes "ready c"
  shows "get cd False now c k =
    ((case find (\<lambda>r. key r = k \<and> live now r) (cache_table c) of
        None \<Rightarrow> Inr None
      | Some r \<Rightarrow> (case decoded cd r of Inl e \<Rightarrow> Inl e | Inr x \<Rightarrow> Inr (Some x))),
     c\<lparr>db := Inr ((projr (db c))
               \<lparr>statementsRun := Suc (statementsRun (projr (db c))),
                rows := map (\<lambda>r. if key r = k \<and> live now r then r\<lparr>lastAccess := now\<rparr> else r)
                            (cache_table c)\<rparr>)\<rparr>)"
proof -
  from ready_db[OF assms] obtain d where d: "db c = Inr d" "connected d" "\<not> isClosed c"
    by blast
  have w: "getStatement_where k now = (\<lambda>r. key r = k \<and> live now r)"
    by (rule ext) (simp add: getStatement_where_iff)
  have f: "find P t = (case filter P t of [] \<Rightarrow> None | r # _ \<Rightarrow> Some r)" for P and t :: table
    by (induction t) simp_all
  show ?thesis
  proof (cases "filter (\<lambda>r. key r = k \<and> live now r) (rows d)")
    case Nil
    then show ?thesis using d
      by (simp add: get_def run_ok getStatement_def w cache_table_def f)
  next
    case (Cons r rs)
    then show ?thesis using d
      by (simp add: get_def run_ok getStatement_def w cache_table_def f decoded_def
          split: sum.splits)
  qed
qed

lemma map_touch_id:
  "find (\<lambda>r. key r = k \<and> live now r) t = None \<Longrightarrow>
   map (\<lambda>r. if key r = k \<and> live now r then r\<lparr>lastAccess := now\<rparr> else r) t = t"
  by (induction t) (auto split: if_splits)

lemma cleanupExpired_filter:
  "snd (cleanupExpiredStatement now t) = filter (\<lambda>r. case expires r of None \<Rightarrow> True | Some e \<Rightarrow> now \<le> e) t"
  by (induction t) (auto simp: cleanupExpiredStatement_def not_sql_where_lt split: option.splits)

lemma sweep_ready:
  assumes "ready c"
  shows "checkForExpiredItems_body orderBy False False now c =
    (Inr (),
     c\<lparr>db := Inr ((projr (db c))
        \<lparr>statementsRun := (case maxItems (configuration c) of None \<Rightarrow> Suc (statementsRun (projr (db c)))
              | Some m \<Rightarrow> if m = 0 then Suc (statementsRun (projr (db c))) else Suc (Suc (statementsRun (projr (db c))))),
         rows := (case maxItems (configuration c) of None \<Rightarrow> snd (cleanupExpiredStatement now (cache_table c))
              | Some m \<Rightarrow> if m = 0 then snd (cleanupExpiredStatement now (cache_table c))
                          else snd (cleanupLruStatement orderBy m (snd (cleanupExpiredStatement now (cache_table c)))))\<rparr>)\<rparr>)"
proof -
  from ready_db[OF assms] obtain d where d: "db c = Inr d" "connected d" "\<not> isClosed c"
    by blast
  show ?thesis using d
    by (simp add: checkForExpiredItems_body_def sweep_try_def run_ok cache_table_def split: option.splits)
qed

lemma sweep_ready_ttl_only:
  assumes "ready c" "maxItems (configuration c) = None"
  shows "cache_table (snd (checkForExpiredItems_body orderBy False failsLru now c)) =
          snd (cleanupExpiredStatement now (cache_table c))"
proof -
  from ready_db[OF assms(1)] obtain d where d: "db c = Inr d" "connected d" "\<not> isClosed c"
    by blast
  show ?thesis using d assms(2)
    by (simp add: checkForExpiredItems_body_def sweep_try_def run_ok cache_table_def)
qed

lemma key_unique:
  "distinct (map key t) \<Longrightarrow> x \<in> set t \<Longrightarrow> y \<in> set t \<Longrightarrow> key x = key y \<Longrightarrow> x = y"
  by (auto simp: distinct_map dest: inj_onD)

lemma find_None_distinct:
  assumes "distinct (map key t)" "r \<in> set t" "key r = k" "\<not> live now r"
  shows "find (\<lambda>x. key x = k \<and> live now x) t = None"
proof -
  have "x = r" if "x \<in> set t" "key x = k" for x
    using key_unique[OF assms(1) that(1) assms(2)] that(2) assms(3) by simp
  then show ?thesis using assms(4) by (auto simp: find_None_iff)
qed

lemma example_table: "cache_table example_cache = [row_a, row_b, row_c]"
  by (simp add: cache_table_def example_cache_def example_connection_def)

lemma example_unbounded:
  "ready example_cache_unbounded"
  "maxItems (configuration example_cache_unbounded) = None"
  "cache_table example_cache_unbounded = [row_a, row_b, row_c]"
  by (simp_all add: example_cache_unbounded_def ready_def cache_table_def example_cache_def
      example_connection_def)

lemma ready_table: "ready c \<Longrightarrow> rows (projr (db c)) = cache_table c"
  by (auto simp: ready_def cache_table_def split: sum.splits)

lemma cache_table_db_immediates [simp]:
  "cache_table (c\<lparr>db := Inr d, immediates := n\<rparr>) = rows d"
  by (simp add: cache_table_def)

lemma lru_key_in:
  assumes "distinct (map key t)" "set o' \<subseteq> set t" "r \<in> set t"
  shows "key r \<in> set (map key o') \<longleftrightarrow> r \<in> set o'"
proof
  assume "key r \<in> set (map key o')"
  then obtain x where x: "x \<in> set o'" "key x = key r" by auto
  with assms(2) have "x \<in> set t" by blast
  from key_unique[OF assms(1) this assms(3) x(2)] x(1) show "r \<in> set o'" by simp
qed simp

lemma cleanupLru_retained:
  assumes dk: "distinct (map key t)" and ob: "ordersByLastAccessDesc orderBy t"
  shows "snd (cleanupLruStatement orderBy m t) = filter (\<lambda>r. r \<notin> set (drop m (orderBy t))) t"
proof -
  have "set (orderBy t) = set t" using ob by (auto simp: ordersByLastAccessDesc_def dest: mset_eq_setD)
  then have sub: "set (drop m (orderBy t)) \<subseteq> set t" by (metis set_drop_subset)
  show ?thesis
    unfolding cleanupLruStatement_def lru_def snd_conv
    by (rule filter_cong[OF refl]) (simp only: lru_key_in[OF dk sub])
qed

lemma cleanupLru_set:
  assumes dk: "distinct (map key t)" and ob: "ordersByLastAccessDesc orderBy t"
  shows "set (snd (cleanupLruStatement orderBy m t)) = set (take m (orderBy t))"
proof -
  let ?o = "orderBy t"
  have so: "set ?o = set t" and mo: "mset ?o = mset t"
    using ob by (auto simp: ordersByLastAccessDesc_def dest: mset_eq_setD)
  have dt: "distinct t" using dk by (simp add: distinct_map)
  have do': "distinct ?o" using mset_eq_imp_distinct_iff[OF mo] dt by simp
  have disj: "set (take m ?o) \<inter> set (drop m ?o) = {}"
    by (rule set_take_disj_set_drop_if_distinct[OF do']) simp
  have un: "set (take m ?o) \<union> set (drop m ?o) = set t"
    using so by (metis append_take_drop_id set_append)
  show ?thesis
    unfolding cleanupLru_retained[OF dk ob] using disj un by auto
qed

lemma cleanupLru_length:
  assumes dk: "distinct (map key t)" and ob: "ordersByLastAccessDesc orderBy t"
  shows "length (snd (cleanupLruStatement orderBy m t)) = min m (length t)"
proof -
  let ?o = "orderBy t"
  have mo: "mset ?o = mset t" using ob by (simp add: ordersByLastAccessDesc_def)
  have dt: "distinct t" using dk by (simp add: distinct_map)
  have do': "distinct ?o" using mset_eq_imp_distinct_iff[OF mo] dt by simp
  have "distinct (snd (cleanupLruStatement orderBy m t))"
    unfolding cleanupLru_retained[OF dk ob] using dt by simp
  then have "length (snd (cleanupLruStatement orderBy m t)) =
      card (set (snd (cleanupLruStatement orderBy m t)))"
    by (simp only: distinct_card)
  also have "\<dots> = card (set (take m ?o))"
    by (simp only: cleanupLru_set[OF dk ob])
  also have "\<dots> = length (take m ?o)"
    using do' by (simp add: distinct_card)
  also have "\<dots> = min m (length t)"
    using mset_eq_length[OF mo] by (simp add: min.commute)
  finally show ?thesis .
qed

lemma cleanupLru_order:
  assumes dk: "distinct (map key t)" and ob: "ordersByLastAccessDesc orderBy t"
    and r: "r \<in> set (snd (cleanupLruStatement orderBy m t))"
    and x: "x \<in> set t" "x \<notin> set (snd (cleanupLruStatement orderBy m t))"
  shows "lastAccess x \<le> lastAccess r"
proof -
  let ?o = "orderBy t"
  have "sorted_wrt (\<lambda>a b. lastAccess a \<ge> lastAccess b) (take m ?o @ drop m ?o)"
    using ob by (simp add: ordersByLastAccessDesc_def)
  then have s: "\<forall>a \<in> set (take m ?o). \<forall>b \<in> set (drop m ?o). lastAccess b \<le> lastAccess a"
    unfolding sorted_wrt_append by blast
  have "r \<in> set (take m ?o)" using r by (simp add: cleanupLru_set[OF dk ob])
  moreover have "x \<in> set (drop m ?o)"
    using x unfolding cleanupLru_retained[OF dk ob] by simp
  ultimately show ?thesis using s by blast
qed

lemma cleanupLru_sublist:
  "snd (cleanupLruStatement orderBy m t) =
     filter (\<lambda>r. r \<in> set (snd (cleanupLruStatement orderBy m t))) t"
  unfolding cleanupLruStatement_def snd_conv
  by (rule filter_cong) auto


lemma orderByLastAccessDesc_ok: "ordersByLastAccessDesc orderByLastAccessDesc t"
proof -
  have "sorted (map lastAccess (sort_key lastAccess t))" by simp
  then have "sorted_wrt (\<lambda>a b. lastAccess a \<le> lastAccess b) (sort_key lastAccess t)"
    by (simp only: sorted_map)
  then have "sorted_wrt (\<lambda>a b. lastAccess b \<le> lastAccess a) (rev (sort_key lastAccess t))"
    by (simp add: sorted_wrt_rev)
  then show ?thesis
    by (simp add: ordersByLastAccessDesc_def orderByLastAccessDesc_def)
qed

lemma closed_get: "isClosed c \<Longrightarrow> get cd fails now c k = (Inl CacheClosed, c)"
  by (simp add: get_def)

lemma closed_set: "isClosed c \<Longrightarrow> set' cd fails dateNow now c k v opts = (Inl CacheClosed, c)"
  by (simp add: set'_def)

lemma closed_delete: "isClosed c \<Longrightarrow> delete fails c k = (Inl CacheClosed, c)"
  by (simp add: delete_def)

lemma closed_clear: "isClosed c \<Longrightarrow> clear fails c = (Inl CacheClosed, c)"
  by (simp add: clear_def)

lemma closed_exec: "isClosed c \<Longrightarrow> exec cd env cl c = (Inl CacheClosed, c)"
  by (cases cl) (simp_all add: exec_def closed_get closed_set closed_delete closed_clear)

lemma closed_exec_all:
  "isClosed c \<Longrightarrow> exec_all cd cs c = (map (\<lambda>x. Inl CacheClosed) cs, c)"
  by (induction cs) (auto simp: closed_exec)

lemma close_done:
  assumes "close c = (Inr (), c')"
  shows "isClosed c'" "\<not> checkInterval c'" "\<exists>d. db c' = Inr d \<and> \<not> connected d"
    "immediates c' = immediates c" "debounceTimestamp c' = debounceTimestamp c"
    "cache_table c' = cache_table c" "configuration c' = configuration c"
  using assms by (auto simp: close_def Let_def cache_table_def split: sum.splits)

lemma body_result: "fst (checkForExpiredItems_body orderBy failsTtl failsLru now c) = Inr ()"
  by (simp add: checkForExpiredItems_body_def split: prod.splits sum.splits)

lemma body_closed:
  "isClosed c \<Longrightarrow> checkForExpiredItems_body orderBy failsTtl failsLru now c = (Inr (), c)"
  by (simp add: checkForExpiredItems_body_def)

lemma sweep_try_fields:
  assumes "sweep_try orderBy failsTtl failsLru now c = (r, c')"
  shows "isClosed c' = isClosed c \<and> checkInterval c' = checkInterval c
       \<and> immediates c' = immediates c \<and> configuration c' = configuration c
       \<and> debounceTimestamp c' = debounceTimestamp c
       \<and> (r = Inr () \<longrightarrow> logged c' = logged c)"
  using assms
  by (auto simp: sweep_try_def split: sum.splits prod.splits option.splits if_splits)

lemma body_fields:
  "isClosed (snd (checkForExpiredItems_body orderBy failsTtl failsLru now c)) = isClosed c"
  "checkInterval (snd (checkForExpiredItems_body orderBy failsTtl failsLru now c)) = checkInterval c"
  "immediates (snd (checkForExpiredItems_body orderBy failsTtl failsLru now c)) = immediates c"
  "configuration (snd (checkForExpiredItems_body orderBy failsTtl failsLru now c)) = configuration c"
  "debounceTimestamp (snd (checkForExpiredItems_body orderBy failsTtl failsLru now c)) = debounceTimestamp c"
  by (auto simp: checkForExpiredItems_body_def split: sum.splits prod.splits dest: sweep_try_fields)

lemma run_rows:
  "rows (snd (run fails stmt d)) = (if fails \<or> \<not> connected d then rows d else snd (stmt (rows d)))"
  "connected (snd (run fails stmt d)) = connected d"
  "(fst (run fails stmt d) = Inl StorageFailed) = (fails \<or> \<not> connected d)"
  "isl (fst (run fails stmt d)) = (fails \<or> \<not> connected d)"
  by (auto simp: run_def Let_def split: prod.splits)

lemma sweep_try_table:
  assumes "sweep_try orderBy failsTtl failsLru now c = (r, c')"
  shows "cache_table c' = cache_table c
       \<or> cache_table c' = snd (cleanupExpiredStatement now (cache_table c))
       \<or> (\<exists>m. maxItems (configuration c) = Some m \<and> cache_table c' =
             snd (cleanupLruStatement orderBy m (snd (cleanupExpiredStatement now (cache_table c)))))"
proof (cases "db c")
  case (Inl e)
  then show ?thesis using assms by (auto simp: sweep_try_def)
next
  case (Inr d)
  obtain r1 d1 where r1: "run failsTtl (cleanupExpiredStatement now) d = (r1, d1)"
    by (cases "run failsTtl (cleanupExpiredStatement now) d")
  have d1: "rows d1 = (if failsTtl \<or> \<not> connected d then rows d
                       else snd (cleanupExpiredStatement now (rows d)))"
    using run_rows(1)[of failsTtl "cleanupExpiredStatement now" d] r1 by simp
  show ?thesis
  proof (cases r1)
    case (Inl e)
    then have "isl (fst (run failsTtl (cleanupExpiredStatement now) d))" using r1 by simp
    then have "rows d1 = rows d" using d1 by (simp add: run_rows(4))
    then show ?thesis using assms Inr r1 Inl
      by (auto simp: sweep_try_def cache_table_def)
  next
    case u: (Inr u)
    then have "\<not> isl (fst (run failsTtl (cleanupExpiredStatement now) d))" using r1 by simp
    then have ok: "rows d1 = snd (cleanupExpiredStatement now (rows d))"
      using d1 by (simp add: run_rows(4))
    show ?thesis
    proof (cases "maxItems (configuration c)")
      case None
      then show ?thesis using assms Inr r1 u ok
        by (auto simp: sweep_try_def cache_table_def)
    next
      case (Some m)
      obtain r2 d2 where r2: "run failsLru (cleanupLruStatement orderBy m) d1 = (r2, d2)"
        by (cases "run failsLru (cleanupLruStatement orderBy m) d1")
      have d2: "rows d2 = rows d1 \<or> rows d2 = snd (cleanupLruStatement orderBy m (rows d1))"
        using run_rows(1)[of failsLru "cleanupLruStatement orderBy m" d1] r2
        by (auto split: if_splits)
      show ?thesis using assms Inr r1 u ok Some r2 d2
        by (auto simp: sweep_try_def cache_table_def split: if_splits sum.splits)
    qed
  qed
qed


lemma sweep_try_ready:
  assumes "sweep_try orderBy failsTtl failsLru now c = (r, c')" "ready c"
  shows "ready c'"
  using assms
  by (auto simp: sweep_try_def ready_def run_def Let_def
      split: sum.splits prod.splits option.splits if_splits)

lemma body_ready:
  "ready c \<Longrightarrow> ready (snd (checkForExpiredItems_body orderBy failsTtl failsLru now c))"
proof -
  assume r: "ready c"
  obtain x c1 where s: "sweep_try orderBy failsTtl failsLru now c = (x, c1)"
    by (cases "sweep_try orderBy failsTtl failsLru now c")
  have "ready c1" by (rule sweep_try_ready[OF s r])
  then show ?thesis using r s
    by (cases x) (simp_all add: checkForExpiredItems_body_def ready_def)
qed

lemma cache_table_logged [simp]: "cache_table (c\<lparr>logged := l\<rparr>) = cache_table c"
  by (simp add: cache_table_def)

lemma body_table:
  "cache_table (snd (checkForExpiredItems_body orderBy failsTtl failsLru now c)) = cache_table c
   \<or> cache_table (snd (checkForExpiredItems_body orderBy failsTtl failsLru now c))
       = snd (cleanupExpiredStatement now (cache_table c))
   \<or> (\<exists>m. maxItems (configuration c) = Some m
         \<and> cache_table (snd (checkForExpiredItems_body orderBy failsTtl failsLru now c))
             = snd (cleanupLruStatement orderBy m
                     (snd (cleanupExpiredStatement now (cache_table c)))))"
proof (cases "isClosed c")
  case True
  then show ?thesis by (simp add: body_closed)
next
  case False
  obtain x c1 where s: "sweep_try orderBy failsTtl failsLru now c = (x, c1)"
    by (cases "sweep_try orderBy failsTtl failsLru now c")
  have "cache_table (snd (checkForExpiredItems_body orderBy failsTtl failsLru now c))
          = cache_table c1"
    using False s by (cases x) (simp_all add: checkForExpiredItems_body_def)
  then show ?thesis using sweep_try_table[OF s] by simp
qed

lemma body_ttl_fails:
  assumes "ready c"
  shows "checkForExpiredItems_body orderBy True failsLru now c =
    (Inr (), c\<lparr>db := Inr ((projr (db c))\<lparr>statementsRun := Suc (statementsRun (projr (db c)))\<rparr>),
               logged := logged c @ [StorageFailed]\<rparr>)"
proof -
  from ready_db[OF assms] obtain d where d: "db c = Inr d" "connected d" "\<not> isClosed c"
    by blast
  show ?thesis using d
    by (simp add: checkForExpiredItems_body_def sweep_try_def run_def Let_def)
qed

lemma body_lru_fails:
  assumes "ready c" "maxItems (configuration c) = Some m" "0 < m"
  shows "checkForExpiredItems_body orderBy False True now c =
    (Inr (), c\<lparr>db := Inr ((projr (db c))
                  \<lparr>statementsRun := Suc (Suc (statementsRun (projr (db c)))),
                   rows := snd (cleanupExpiredStatement now (cache_table c))\<rparr>),
               logged := logged c @ [StorageFailed]\<rparr>)"
proof -
  from ready_db[OF assms(1)] obtain d where d: "db c = Inr d" "connected d" "\<not> isClosed c"
    by blast
  show ?thesis using d assms(2,3)
    by (simp add: checkForExpiredItems_body_def sweep_try_def run_def Let_def cache_table_def
        split: prod.splits)
qed

lemma fire_checkInterval:
  "checkInterval (fire orderBy failsTtl failsLru now tr c) = checkInterval c"
  by (cases tr) (simp_all add: fire_def checkForExpiredItems_def Let_def body_fields)

lemma fire_closed:
  assumes "isClosed c"
  shows "db (fire orderBy failsTtl failsLru now tr c) = db c"
    and "isClosed (fire orderBy failsTtl failsLru now tr c)"
  using assms
  by (cases tr; simp add: fire_def checkForExpiredItems_def Let_def body_closed)+

lemma fire_all_closed:
  "isClosed c \<Longrightarrow> db (fire_all orderBy ts c) = db c \<and> isClosed (fire_all orderBy ts c)"
proof (induction ts arbitrary: c)
  case Nil
  then show ?case by simp
next
  case (Cons a ts)
  obtain env tr where a: "a = (env, tr)" by (cases a)
  show ?case
    using Cons.IH[OF fire_closed(2)[OF Cons.prems]] fire_closed(1)[OF Cons.prems]
    by (simp add: a)
qed

lemma find_replaced_live:
  "key new = k \<Longrightarrow> P new \<Longrightarrow>
   find (\<lambda>r. key r = k \<and> P r) (filter (\<lambda>r. key r \<noteq> k) t @ [new]) = Some new"
  by (induction t) simp_all

lemma replicate_2001: "replicate 2001 x = x # replicate 2000 x"
proof -
  have "replicate (Suc 2000) x = x # replicate 2000 x" by (rule replicate_Suc)
  then show ?thesis by simp
qed

lemma example_round_trip:
  "cborDecode example_codec (cborEncode example_codec v) = Inr v"
  "gunzip example_codec (gzip example_codec (cborEncode example_codec (replicate 2000 64)))
     = Inr (cborEncode example_codec (replicate 2000 64))"
   apply (simp add: example_codec_def)
  apply (simp add: example_encode example_gzip_run)
  apply (simp add: example_codec_def example_gunzip_def replicate_2001)
  done

subsection \<open>The primary key\<close>

text \<open>
  Keys stay unique in the table under every statement, every public operation and
  every sweep, so a table with unique keys is what each of them meets.
\<close>

lemma statements_keep_keys_distinct:
  assumes "distinct (map key t)"
  shows "distinct (map key (snd (getStatement k now t)))"
    and "distinct (map key (snd (setStatement new t)))"
    and "distinct (map key (snd (deleteStatement k t)))"
    and "distinct (map key (snd (clearStatement t)))"
    and "distinct (map key (snd (cleanupExpiredStatement now t)))"
    and "distinct (map key (snd (cleanupLruStatement orderBy m t)))"
proof -
  have "key \<circ> (\<lambda>r. if getStatement_where k now r then r\<lparr>lastAccess := now\<rparr> else r) = key"
    by (rule ext) simp
  then show "distinct (map key (snd (getStatement k now t)))"
    using assms by (simp add: getStatement_def)
  show "distinct (map key (snd (setStatement new t)))"
    using assms by (auto simp: setStatement_def distinct_map_filter)
  show "distinct (map key (snd (deleteStatement k t)))"
    using assms by (simp add: deleteStatement_def distinct_map_filter)
  show "distinct (map key (snd (clearStatement t)))"
    by (simp add: clearStatement_def)
  show "distinct (map key (snd (cleanupExpiredStatement now t)))"
    using assms by (simp add: cleanupExpiredStatement_def distinct_map_filter)
  show "distinct (map key (snd (cleanupLruStatement orderBy m t)))"
    using assms by (simp add: cleanupLruStatement_def distinct_map_filter)
qed

lemma run_keeps_keys_distinct:
  assumes "distinct (map key (rows d))"
    and "\<And>t. distinct (map key t) \<Longrightarrow> distinct (map key (snd (stmt t)))"
  shows "distinct (map key (rows (snd (run fails stmt d))))"
  using assms by (simp add: run_rows(1))

lemma exec_keeps_keys_distinct:
  assumes "distinct (map key (cache_table c))"
  shows "distinct (map key (cache_table (snd (exec cd env cl c))))"
proof (cases "isClosed c")
  case True
  then show ?thesis using assms by (simp add: closed_exec)
next
  case False
  show ?thesis
  proof (cases "db c")
    case (Inl e)
    then show ?thesis using assms False
      by (cases cl) (simp_all add: exec_def get_def set'_def delete_def clear_def)
  next
    case (Inr d)
    then have d: "distinct (map key (rows d))" using assms by (simp add: cache_table_def)
    note r = run_keeps_keys_distinct[OF d]
    show ?thesis
    proof (cases cl)
      case (Get k)
      have "distinct (map key (rows (snd (run (storageFails env) (getStatement k (nowValue env)) d))))"
        by (rule r) (rule statements_keep_keys_distinct)
      then show ?thesis using False Inr Get
        by (auto simp: exec_def get_def cache_table_def split: prod.splits sum.splits option.splits)
    next
      case (Set k v opts)
      have "distinct (map key (rows (snd (run (storageFails env)
               (setStatement (set_row cd (dateNowValue env) (nowValue env) (configuration c) k v opts)) d))))"
        by (rule r) (rule statements_keep_keys_distinct)
      then show ?thesis using False Inr Set
        by (auto simp: exec_def set'_def cache_table_def split: prod.splits sum.splits)
    next
      case (Delete k)
      have "distinct (map key (rows (snd (run (storageFails env) (deleteStatement k) d))))"
        by (rule r) (rule statements_keep_keys_distinct)
      then show ?thesis using False Inr Delete
        by (auto simp: exec_def delete_def cache_table_def split: prod.splits sum.splits)
    next
      case Clear
      have "distinct (map key (rows (snd (run (storageFails env) clearStatement d))))"
        by (rule r) (rule statements_keep_keys_distinct)
      then show ?thesis using False Inr Clear
        by (auto simp: exec_def clear_def cache_table_def split: prod.splits sum.splits)
    qed
  qed
qed

lemma sweep_keeps_keys_distinct:
  assumes "distinct (map key (cache_table c))"
  shows "distinct (map key (cache_table (snd (checkForExpiredItems_body orderBy failsTtl failsLru now c))))"
  using body_table[of orderBy failsTtl failsLru now c] assms
  by (auto simp: statements_keep_keys_distinct(5,6))

section \<open>Expiry written by set\<close>



section \<open>The compression decision of set\<close>

text \<open>
  C2. Let \<open>flag\<close> be the per-call \<^verbatim>\<open>compress\<close> option if given, else the instance
  default, else false, and \<open>e\<close> the encoded bytes of the value. When the flag is false
  or \<open>e\<close> is shorter than 1024 bytes the row stores \<open>e\<close> uncompressed; otherwise, when
  the gzip of \<open>e\<close> is not shorter than \<open>e\<close> the row stores \<open>e\<close> uncompressed, else it
  stores the gzip with the flag set. The stored bytes are never longer than \<open>e\<close>.
\<close>

theorem set_compression_decision:
  assumes "ready c"
    and "e = cborEncode cd v"
    and "flag = (case compressOpt opts of Some b \<Rightarrow> b
                 | None \<Rightarrow> (case compress (configuration c) of Some b \<Rightarrow> b | None \<Rightarrow> False))"
  shows "\<exists>r. stored (snd (set' cd False dateNow now c k v opts)) k = Some r
           \<and> (\<not> flag \<or> length e < 1024 \<longrightarrow> valueBlob r = e \<and> \<not> compressed r)
           \<and> (flag \<and> 1024 \<le> length e \<and> length e \<le> length (gzip cd e)
                \<longrightarrow> valueBlob r = e \<and> \<not> compressed r)
           \<and> (flag \<and> 1024 \<le> length e \<and> length (gzip cd e) < length e
                \<longrightarrow> valueBlob r = gzip cd e \<and> compressed r)
           \<and> length (valueBlob r) \<le> length e"
  unfolding stored_after_set[OF assms(1)] assms(2,3)
  by (simp add: effective_set_row Let_def)

theorem set_compression_decision_witness:
  "ready example_cache
   \<and> (\<exists>r. stored (snd (set' example_codec False 1000 1001 example_cache ''k'' (replicate 2000 64)
                         \<lparr>ttlMs = None, compressOpt = None\<rparr>)) ''k'' = Some r
          \<and> valueBlob r = [31, 139, 7, 209, 64] \<and> compressed r)"
  using ready_example_cache
    set_compression_decision [OF ready_example_cache, of "64 # replicate 2000 64" example_codec
      "replicate 2000 64" True "\<lparr>ttlMs = None, compressOpt = None\<rparr>" 1000 1001 "''k''"]
  by (auto simp add: example_cache_def example_configuration_def example_encode example_gzip_run)


section \<open>The frame of get\<close>

text \<open>
  C3. A \<^verbatim>\<open>get\<close> on an open cache: when the table holds a live row for the key (its
  \<^verbatim>\<open>expires\<close> is null or greater than the current time), the call returns what the
  read path decodes from that row, and the row's \<^verbatim>\<open>lastAccess\<close> becomes the current
  time; otherwise the call returns absent and the table is unchanged. In both cases
  the table afterwards is the old one with only \<^verbatim>\<open>lastAccess\<close> of the matched row
  replaced: no other field and no other row changes.
\<close>

theorem get_touches_only_the_live_row:
  assumes "ready c"
  shows "(case find (\<lambda>r. key r = k \<and> live now r) (cache_table c) of
            Some r \<Rightarrow>
              fst (get cd False now c k) =
                (case decoded cd r of Inl e \<Rightarrow> Inl e | Inr x \<Rightarrow> Inr (Some x))
          | None \<Rightarrow>
              fst (get cd False now c k) = Inr None
              \<and> cache_table (snd (get cd False now c k)) = cache_table c)
       \<and> cache_table (snd (get cd False now c k)) =
           map (\<lambda>r. if key r = k \<and> live now r then r\<lparr>lastAccess := now\<rparr> else r) (cache_table c)"
  by (simp add: get_ready[OF assms] cache_table_def map_touch_id split: option.splits)


theorem get_touches_only_the_live_row_witness:
  "ready example_cache
   \<and> fst (get example_codec False 99 example_cache ''b'') = Inr (Some [3])
   \<and> cache_table (snd (get example_codec False 99 example_cache ''b''))
       = [row_a, row_b\<lparr>lastAccess := 99\<rparr>, row_c]
   \<and> fst (get example_codec False 100 example_cache ''b'') = Inr None
   \<and> cache_table (snd (get example_codec False 100 example_cache ''b''))
       = [row_a, row_b, row_c]"
  using ready_example_cache
    get_touches_only_the_live_row [OF ready_example_cache, where k = "''b''" and now = 99
      and cd = example_codec]
    get_touches_only_the_live_row [OF ready_example_cache, where k = "''b''" and now = 100
      and cd = example_codec]
  by (simp add: example_table row_a_def row_b_def row_c_def live_def decoded_def
      example_codec_def)

section \<open>The TTL sweep\<close>

text \<open>
  C5. The TTL statement deletes exactly the rows whose \<^verbatim>\<open>expires\<close> is non-null and
  less than the current time; rows that never expire, and rows whose \<^verbatim>\<open>expires\<close> is
  the current time or later, stay as they are, in their order. On an open cache with
  no capacity bound this is all a sweep does to the table.
\<close>

theorem ttl_sweep_deletes_exactly_expired:
  "snd (cleanupExpiredStatement now t) =
     filter (\<lambda>r. case expires r of None \<Rightarrow> True | Some e \<Rightarrow> now \<le> e) t
   \<and> (\<forall>r \<in> set t. r \<notin> set (snd (cleanupExpiredStatement now t))
                     \<longleftrightarrow> (\<exists>e. expires r = Some e \<and> e < now))
   \<and> (ready c \<and> maxItems (configuration c) = None \<longrightarrow>
        cache_table (snd (checkForExpiredItems_body orderBy False failsLru now c)) =
          snd (cleanupExpiredStatement now (cache_table c)))"
  by (auto simp add: cleanupExpired_filter sweep_ready_ttl_only split: option.splits)


theorem ttl_sweep_deletes_exactly_expired_witness:
  "snd (cleanupExpiredStatement 60 [row_a, row_b, row_c]) = [row_a, row_b]
   \<and> ready example_cache_unbounded
   \<and> maxItems (configuration example_cache_unbounded) = None
   \<and> cache_table (snd (checkForExpiredItems_body orderByLastAccessDesc False False 60
                         example_cache_unbounded)) = [row_a, row_b]"
  using example_unbounded
    ttl_sweep_deletes_exactly_expired [where now = 60 and t = "[row_a, row_b, row_c]"
      and c = example_cache_unbounded and orderBy = orderByLastAccessDesc and failsLru = False]
  by (simp add: row_a_def row_b_def row_c_def)

section \<open>The LRU sweep and the capacity bound\<close>

text \<open>
  C4. With a capacity bound \<^verbatim>\<open>maxItems\<close> configured, a sweep cycle that runs both
  statements on an open cache leaves at most \<^verbatim>\<open>maxItems\<close> rows. The rows it retains
  are rows of the table (after the TTL statement), unchanged and in their order, as
  many as the bound allows, and each retained row has a \<^verbatim>\<open>lastAccess\<close> at least as
  large as that of every row the LRU statement deleted, however the engine orders rows
  with equal \<^verbatim>\<open>lastAccess\<close>. Before the next sweep a write can take the table above
  the bound: a \<^verbatim>\<open>set\<close> of a new key on a table of \<^verbatim>\<open>maxItems\<close> rows leaves
  \<^verbatim>\<open>maxItems + 1\<close> rows. Keys are unique in the table (the primary key).
\<close>

theorem lru_sweep_bounds_table:
  assumes "ready c"
    and "maxItems (configuration c) = Some m"
    and "0 < m"
    and "distinct (map key (cache_table c))"
    and "t1 = snd (cleanupExpiredStatement now (cache_table c))"
    and "ordersByLastAccessDesc orderBy t1"
    and "t2 = cache_table (snd (checkForExpiredItems_body orderBy False False now c))"
  shows "length t2 \<le> m
       \<and> length t2 = min m (length t1)
       \<and> t2 = filter (\<lambda>r. r \<in> set t2) t1
       \<and> (\<forall>r \<in> set t2. \<forall>x \<in> set t1 - set t2. lastAccess x \<le> lastAccess r)
       \<and> (\<forall>(cd :: 'v codec) dateNow now' k v opts.
            length (cache_table c) = m \<and> k \<notin> key ` set (cache_table c) \<longrightarrow>
            length (cache_table (snd (set' cd False dateNow now' c k v opts))) = m + 1)"
proof -
  have d1: "distinct (map key t1)"
    unfolding assms(5) cleanupExpired_filter using assms(4) by (simp add: distinct_map_filter)
  have t2: "t2 = snd (cleanupLruStatement orderBy m t1)"
    unfolding assms(7,5) using assms(2,3) by (simp add: sweep_ready[OF assms(1)])
  have len: "length t2 = min m (length t1)"
    unfolding t2 by (rule cleanupLru_length[OF d1 assms(6)])
  have sub: "t2 = filter (\<lambda>r. r \<in> set t2) t1"
    unfolding t2 by (rule cleanupLru_sublist)
  have ord: "\<forall>r \<in> set t2. \<forall>x \<in> set t1 - set t2. lastAccess x \<le> lastAccess r"
    unfolding t2 using cleanupLru_order[OF d1 assms(6)] by blast
  have tr: "length (cache_table (snd (set' cd False dateNow now' c k v opts))) = m + 1"
    if "length (cache_table c) = m" "k \<notin> key ` set (cache_table c)"
    for cd :: "'v codec" and dateNow now' k v opts
  proof -
    have "filter (\<lambda>r. key r \<noteq> k) (cache_table c) = cache_table c"
      using that(2) by (auto simp: filter_id_conv)
    then show ?thesis using that(1)
      by (simp add: set_ready[OF assms(1)] ready_table[OF assms(1)])
  qed
  have le: "length t2 \<le> m" using len by simp
  have tr_all: "\<forall>(cd :: 'v codec) dateNow now' k v opts.
            length (cache_table c) = m \<and> k \<notin> key ` set (cache_table c) \<longrightarrow>
            length (cache_table (snd (set' cd False dateNow now' c k v opts))) = m + 1"
    using tr by blast
  show ?thesis
    by (rule conjI[OF le conjI[OF len conjI[OF sub conjI[OF ord tr_all]]]])
qed


theorem lru_sweep_bounds_table_witness:
  "ready example_cache
   \<and> maxItems (configuration example_cache) = Some 2
   \<and> distinct (map key (cache_table example_cache))
   \<and> snd (cleanupExpiredStatement 40 (cache_table example_cache)) = [row_a, row_b, row_c]
   \<and> ordersByLastAccessDesc orderByLastAccessDesc [row_a, row_b, row_c]
   \<and> cache_table (snd (checkForExpiredItems_body orderByLastAccessDesc False False 40
                         example_cache)) = [row_b, row_c]
   \<and> length (cache_table (snd (checkForExpiredItems_body orderByLastAccessDesc False False 40
                         example_cache))) \<le> 2"
proof -
  have m: "maxItems (configuration example_cache) = Some 2"
    by (simp add: example_cache_def example_configuration_def)
  have d: "distinct (map key (cache_table example_cache))"
    by (simp add: example_table row_a_def row_b_def row_c_def)
  have t1: "[row_a, row_b, row_c] = snd (cleanupExpiredStatement 40 (cache_table example_cache))"
    by (simp add: example_table cleanupExpired_filter row_a_def row_b_def row_c_def)
  have t2: "cache_table (snd (checkForExpiredItems_body orderByLastAccessDesc False False 40
                         example_cache)) = [row_b, row_c]"
    by (simp add: sweep_ready[OF ready_example_cache] m t1[symmetric] cleanupLruStatement_def
        lru_def orderByLastAccessDesc_def row_a_def row_b_def row_c_def)
  show ?thesis
    using lru_sweep_bounds_table [OF ready_example_cache m _ d t1 orderByLastAccessDesc_ok refl]
      ready_example_cache m d t1 t2 orderByLastAccessDesc_ok
    by simp
qed

section \<open>An entry that expires at the current instant\<close>

text \<open>
  C10. For a row whose \<^verbatim>\<open>expires\<close> equals the current time, \<^verbatim>\<open>get\<close> at that instant
  returns absent and leaves the table, and so the row's \<^verbatim>\<open>lastAccess\<close>, unchanged;
  the TTL statement run at that instant keeps the row, and a TTL statement deletes it
  exactly when it runs at a time strictly after \<^verbatim>\<open>expires\<close>. Keys are unique in the
  table (the primary key).
\<close>

theorem expiry_boundary:
  assumes "ready c"
    and "distinct (map key (cache_table c))"
    and "r \<in> set (cache_table c)"
    and "key r = k"
    and "expires r = Some now"
  shows "fst (get cd False now c k) = Inr None
       \<and> cache_table (snd (get cd False now c k)) = cache_table c
       \<and> r \<in> set (snd (cleanupExpiredStatement now (cache_table c)))
       \<and> (\<forall>now'. r \<notin> set (snd (cleanupExpiredStatement now' (cache_table c))) \<longleftrightarrow> now < now')"
proof -
  have nl: "\<not> live now r" using assms(5) by (simp add: live_def)
  have f: "find (\<lambda>x. key x = k \<and> live now x) (cache_table c) = None"
    by (rule find_None_distinct[OF assms(2,3,4) nl])
  have g: "fst (get cd False now c k) = Inr None
       \<and> cache_table (snd (get cd False now c k)) = cache_table c"
    by (simp add: get_ready[OF assms(1)] f map_touch_id)
  have s: "r \<in> set (snd (cleanupExpiredStatement now' (cache_table c))) \<longleftrightarrow> now' \<le> now" for now'
    using assms(3,5) by (simp add: cleanupExpired_filter)
  show ?thesis using g s by (auto simp: not_le)
qed

theorem expiry_boundary_witness:
  "ready example_cache
   \<and> distinct (map key (cache_table example_cache))
   \<and> row_b \<in> set (cache_table example_cache)
   \<and> expires row_b = Some 100
   \<and> fst (get example_codec False 100 example_cache ''b'') = Inr None
   \<and> cache_table (snd (get example_codec False 100 example_cache ''b'')) = [row_a, row_b, row_c]
   \<and> row_b \<in> set (snd (cleanupExpiredStatement 100 [row_a, row_b, row_c]))
   \<and> row_b \<notin> set (snd (cleanupExpiredStatement 101 [row_a, row_b, row_c]))"
proof -
  have d: "distinct (map key (cache_table example_cache))"
    by (simp add: example_table row_a_def row_b_def row_c_def)
  have m: "row_b \<in> set (cache_table example_cache)"
    by (simp add: example_table)
  have k: "key row_b = ''b''" and e: "expires row_b = Some 100"
    by (simp_all add: row_b_def)
  show ?thesis
    using expiry_boundary [OF ready_example_cache d m k e, where cd = example_codec]
      ready_example_cache d m e
    by (simp add: example_table)
qed

section \<open>Use after close\<close>

text \<open>
  C6. Once \<^verbatim>\<open>close()\<close> has completed, every later call of \<^verbatim>\<open>get\<close>, \<^verbatim>\<open>set\<close>,
  \<^verbatim>\<open>delete\<close> or \<^verbatim>\<open>clear\<close>, alone or in any sequence, raises the closed-cache error
  and leaves the whole state as it was: no statement is run on the connection and the
  table keeps its contents.
\<close>

theorem use_after_close_fails:
  assumes "close c = (Inr (), c')"
  shows "get cd fails now c' k = (Inl CacheClosed, c')
       \<and> set' cd fails dateNow now c' k v opts = (Inl CacheClosed, c')
       \<and> delete fails c' k = (Inl CacheClosed, c')
       \<and> clear fails c' = (Inl CacheClosed, c')
       \<and> exec_all cd calls c' = (map (\<lambda>x. Inl CacheClosed) calls, c')
       \<and> storage_accesses (snd (exec_all cd calls c')) = storage_accesses c'
       \<and> cache_table (snd (exec_all cd calls c')) = cache_table c"
  using close_done(1,6)[OF assms]
  by (simp add: closed_get closed_set closed_delete closed_clear closed_exec_all)


theorem use_after_close_fails_witness:
  "close example_cache = (Inr (), snd (close example_cache))
   \<and> get example_codec False 5 (snd (close example_cache)) ''a''
       = (Inl CacheClosed, snd (close example_cache))
   \<and> exec_all example_codec
        [(\<lparr>storageFails = False, dateNowValue = 5, nowValue = 6\<rparr>,
          Set ''a'' [1] \<lparr>ttlMs = None, compressOpt = None\<rparr>),
         (\<lparr>storageFails = False, dateNowValue = 7, nowValue = 7\<rparr>, Clear)]
        (snd (close example_cache))
       = ([Inl CacheClosed, Inl CacheClosed], snd (close example_cache))
   \<and> cache_table (snd (close example_cache)) = [row_a, row_b, row_c]"
proof -
  have c: "close example_cache = (Inr (), snd (close example_cache))"
    by (simp add: close_def example_cache_def)
  show ?thesis
    using c use_after_close_fails [OF c, where cd = example_codec and fails = False and now = 5
        and k = "''a''"
        and calls = "[(\<lparr>storageFails = False, dateNowValue = 5, nowValue = 6\<rparr>,
                       Set ''a'' [1] \<lparr>ttlMs = None, compressOpt = None\<rparr>),
                      (\<lparr>storageFails = False, dateNowValue = 7, nowValue = 7\<rparr>, Clear)]"]
      close_done(6)[OF c]
    by (simp add: example_table)
qed

section \<open>Failures inside a sweep\<close>

text \<open>
  C7. Whatever fails inside a sweep (the connection, the TTL statement or the LRU
  statement), the sweep itself returns normally and the error goes to the log: nothing
  is raised to a caller. The table afterwards is the old table, or the old table after
  the TTL deletion, or after both deletions; a failure of the TTL statement leaves it
  as it was, and a failure of the LRU statement leaves the TTL deletion applied. The
  interval timer stays armed and an open cache stays open and usable, so later sweeps
  are triggered as before. A sweep on a closed cache changes nothing.
\<close>

theorem sweep_failure_is_contained:
  assumes "c' = snd (checkForExpiredItems_body orderBy failsTtl failsLru now c)"
  shows "fst (checkForExpiredItems_body orderBy failsTtl failsLru now c) = Inr ()
       \<and> isClosed c' = isClosed c
       \<and> checkInterval c' = checkInterval c
       \<and> checkInterval (fire orderBy failsTtl failsLru now tr c) = checkInterval c
       \<and> (ready c \<longrightarrow> ready c')
       \<and> (cache_table c' = cache_table c
          \<or> cache_table c' = snd (cleanupExpiredStatement now (cache_table c))
          \<or> (\<exists>m. maxItems (configuration c) = Some m
                \<and> cache_table c' = snd (cleanupLruStatement orderBy m
                                         (snd (cleanupExpiredStatement now (cache_table c))))))
       \<and> (ready c \<and> failsTtl \<longrightarrow>
            cache_table c' = cache_table c \<and> logged c' = logged c @ [StorageFailed])
       \<and> (\<forall>m. ready c \<and> \<not> failsTtl \<and> failsLru \<and> maxItems (configuration c) = Some m \<and> 0 < m
              \<longrightarrow> cache_table c' = snd (cleanupExpiredStatement now (cache_table c))
                \<and> logged c' = logged c @ [StorageFailed])
       \<and> (isClosed c \<longrightarrow> c' = c)"
proof -
  have a: "ready c \<and> failsTtl \<longrightarrow>
            cache_table c' = cache_table c \<and> logged c' = logged c @ [StorageFailed]"
    unfolding assms by (auto simp: body_ttl_fails cache_table_def ready_table)
  have b: "\<forall>m. ready c \<and> \<not> failsTtl \<and> failsLru \<and> maxItems (configuration c) = Some m \<and> 0 < m
              \<longrightarrow> cache_table c' = snd (cleanupExpiredStatement now (cache_table c))
                \<and> logged c' = logged c @ [StorageFailed]"
    unfolding assms by (auto simp: body_lru_fails cache_table_def)
  show ?thesis
    using a b body_table[of orderBy failsTtl failsLru now c]
    unfolding assms
    by (simp add: body_result body_fields fire_checkInterval body_ready body_closed)
qed


theorem sweep_failure_is_contained_witness:
  "ready example_cache
   \<and> maxItems (configuration example_cache) = Some 2
   \<and> fst (checkForExpiredItems_body orderByLastAccessDesc False True 60 example_cache) = Inr ()
   \<and> cache_table (snd (checkForExpiredItems_body orderByLastAccessDesc False True 60
                         example_cache)) = [row_a, row_b]
   \<and> logged (snd (checkForExpiredItems_body orderByLastAccessDesc False True 60
                         example_cache)) = [StorageFailed]
   \<and> checkInterval (snd (checkForExpiredItems_body orderByLastAccessDesc False True 60
                         example_cache))
   \<and> ready (snd (checkForExpiredItems_body orderByLastAccessDesc False True 60 example_cache))"
proof -
  have m: "maxItems (configuration example_cache) = Some 2"
    by (simp add: example_cache_def example_configuration_def)
  have t: "snd (cleanupExpiredStatement 60 [row_a, row_b, row_c]) = [row_a, row_b]"
    by (simp add: cleanupExpired_filter row_a_def row_b_def row_c_def)
  have l: "logged example_cache = []" "checkInterval example_cache"
    by (simp_all add: example_cache_def)
  show ?thesis
    using sweep_failure_is_contained [OF refl, where orderBy = orderByLastAccessDesc
        and failsTtl = False and failsLru = True and now = 60 and c = example_cache
        and tr = IntervalTick]
      ready_example_cache m
    by (simp add: example_table t l)
qed

section \<open>What close does to the scheduler\<close>

text \<open>
  C8, as the source has it. \<^verbatim>\<open>close()\<close> clears the interval timer, closes the
  connection and sets the closed flag. It cancels neither the callbacks that
  \<^verbatim>\<open>set\<close> has queued with \<^verbatim>\<open>setImmediate\<close> nor the debounce window: they stay as
  they were. A sweep invoked after \<^verbatim>\<open>close()\<close> returns at the test of the closed flag,
  so whatever triggers fire afterwards, no statement is run on the connection.
\<close>

theorem close_stops_sweeps:
  assumes "close c = (Inr (), c')"
  shows "\<not> checkInterval c'
       \<and> isClosed c'
       \<and> (\<exists>d. db c' = Inr d \<and> \<not> connected d)
       \<and> immediates c' = immediates c
       \<and> debounceTimestamp c' = debounceTimestamp c
       \<and> checkForExpiredItems_body orderBy failsTtl failsLru now c' = (Inr (), c')
       \<and> db (fire_all orderBy ts c') = db c'
       \<and> storage_accesses (fire_all orderBy ts c') = storage_accesses c'"
  using close_done(1-5)[OF assms] fire_all_closed[OF close_done(1)[OF assms], of orderBy ts]
  by (simp add: body_closed storage_accesses_def)

theorem close_stops_sweeps_witness:
  "close example_cache = (Inr (), snd (close example_cache))
   \<and> \<not> checkInterval (snd (close example_cache))
   \<and> isClosed (snd (close example_cache))
   \<and> storage_accesses
        (fire_all orderByLastAccessDesc
           [(\<lparr>ttlFails = False, lruFails = False, sweepNow = 5\<rparr>, Immediate),
            (\<lparr>ttlFails = False, lruFails = False, sweepNow = 2000\<rparr>, IntervalTick)]
           (snd (close example_cache))) = 0"
proof -
  have c: "close example_cache = (Inr (), snd (close example_cache))"
    by (simp add: close_def example_cache_def)
  have s: "storage_accesses (snd (close example_cache)) = 0"
    by (simp add: close_def example_cache_def example_connection_def storage_accesses_def)
  show ?thesis
    using c close_stops_sweeps [OF c, where orderBy = orderByLastAccessDesc
        and ts = "[(\<lparr>ttlFails = False, lruFails = False, sweepNow = 5\<rparr>, Immediate),
                   (\<lparr>ttlFails = False, lruFails = False, sweepNow = 2000\<rparr>, IntervalTick)]"] s
    by simp
qed


text \<open>
  C8, as worded in the specification, has \<^verbatim>\<open>close()\<close> cancel any pending sweep.
  After a \<^verbatim>\<open>set\<close> and a \<^verbatim>\<open>close()\<close> the callback queued by the \<^verbatim>\<open>set\<close> is
  still pending, and when it fires it still calls the debounced function.
\<close>

theorem close_leaves_sweep_request_pending:
  "fst (close (snd (set' example_codec False 1000 1001 example_cache ''k'' [7]
                      \<lparr>ttlMs = None, compressOpt = None\<rparr>))) = Inr ()
   \<and> immediates (snd (close (snd (set' example_codec False 1000 1001 example_cache ''k'' [7]
                      \<lparr>ttlMs = None, compressOpt = None\<rparr>)))) \<noteq> 0
   \<and> debounceTimestamp (fire orderByLastAccessDesc False False 1002 Immediate
        (snd (close (snd (set' example_codec False 1000 1001 example_cache ''k'' [7]
                      \<lparr>ttlMs = None, compressOpt = None\<rparr>))))) = Some 1002"
  by (simp add: set'_def run_def setStatement_def close_def Let_def fire_def
      checkForExpiredItems_def checkForExpiredItems_body_def example_cache_def
      example_connection_def)


section \<open>Round trip of a value\<close>

text \<open>
  C9. For a value that the codec round-trips (decoding its encoding gives it back, and
  gunzip of the gzip of its encoding gives the encoding back), a \<^verbatim>\<open>get\<close> of the key
  after a \<^verbatim>\<open>set\<close> of that value on an open cache, at a time before the entry's
  expiry, returns the value, whether or not \<^verbatim>\<open>set\<close> stored the bytes compressed.
\<close>

theorem get_after_set_round_trip:
  assumes "ready c"
    and "cborDecode cd (cborEncode cd v) = Inr v"
    and "gunzip cd (gzip cd (cborEncode cd v)) = Inr (cborEncode cd v)"
    and "case ttlMs opts of None \<Rightarrow> True | Some t \<Rightarrow> now' < dateNow + t"
  shows "fst (get cd False now' (snd (set' cd False dateNow now c k v opts)) k) = Inr (Some v)"
proof -
  let ?r = "set_row cd dateNow now (configuration c) k v opts"
  let ?c1 = "snd (set' cd False dateNow now c k v opts)"
  have r1: "ready ?c1"
    using assms(1) by (auto simp: set_ready[OF assms(1)] ready_def split: sum.splits)
  have t1: "cache_table ?c1 = filter (\<lambda>r. key r \<noteq> k) (cache_table c) @ [?r]"
    by (simp add: set_ready[OF assms(1)] ready_table[OF assms(1)])
  have lv: "live now' ?r"
    using assms(4) by (simp add: live_def expires_set_row TimeClip_def split: option.splits)
  have f: "find (\<lambda>r. key r = k \<and> live now' r) (cache_table ?c1) = Some ?r"
    unfolding t1
    by (rule find_replaced_live[where P = "live now'"]) (simp_all add: key_set_row lv)
  have d: "decoded cd ?r = Inr v"
    using assms(2,3) by (simp add: decoded_def effective_set_row Let_def)
  show ?thesis
    by (simp add: get_ready[OF r1] f d)
qed

theorem get_after_set_round_trip_witness:
  "ready example_cache
   \<and> fst (get example_codec False 1500
            (snd (set' example_codec False 1000 1001 example_cache ''k'' (replicate 2000 64)
                    \<lparr>ttlMs = Some 600, compressOpt = None\<rparr>)) ''k'')
       = Inr (Some (replicate 2000 64))
   \<and> compressed (the (stored
            (snd (set' example_codec False 1000 1001 example_cache ''k'' (replicate 2000 64)
                    \<lparr>ttlMs = Some 600, compressOpt = None\<rparr>)) ''k''))"
proof -
  have z: "compressed (set_row example_codec 1000 1001 (configuration example_cache) ''k''
             (replicate 2000 64) \<lparr>ttlMs = Some 600, compressOpt = None\<rparr>)"
    by (simp add: effective_set_row Let_def example_encode example_gzip_run example_cache_def
        example_configuration_def)
  show ?thesis
    using ready_example_cache
      get_after_set_round_trip [OF ready_example_cache example_round_trip, where now' = 1500
        and dateNow = 1000 and now = 1001 and k = "''k''"
        and opts = "\<lparr>ttlMs = Some 600, compressOpt = None\<rparr>"]
    by (simp add: stored_after_set[OF ready_example_cache] z)
qed


end
